theory Spec2Isabelle
  imports Main "HOL-Library.Word" "HOL-Library.AList"
begin

section \<open>Data model\<close>

text \<open>
  The news scheduler of the Telegram bot (internal/bot/scheduler/scheduler.go) and the
  sent-article repository it calls (internal/bot/database/database.go).

  Go's \<^verbatim>\<open>uint\<close> and \<^verbatim>\<open>int64\<close> are 64-bit words (the binary is built for linux on a 64-bit
  platform). A \<^verbatim>\<open>time.Time\<close> is an instant counted in nanoseconds, a \<^verbatim>\<open>time.Duration\<close> a
  signed 64-bit number of nanoseconds, read as an \<open>int\<close>.
\<close>

datatype error = DBError | FetchError | SendError

text \<open>fetcher.Article: the fields the scheduler reads.\<close>

record Article =
  Title :: string
  Description :: string
  URL :: string
  PublishedAt :: int
  SourceName :: string

text \<open>database.User: the fields the scheduler reads; \<open>LastNotifiedAt\<close> is a nullable pointer.\<close>

record User =
  ID :: "64 word"
  TelegramID :: "64 word"
  NotificationIntervalMinutes :: "64 word"
  LastNotifiedAt :: "int option"
  NewsLimit :: "64 word"

text \<open>
  Every call the scheduler makes to one of its suppliers (repositories, fetcher, bot API)
  is recorded, in order, as an event. \<open>Send chat user article ok\<close> is one call of
  \<^verbatim>\<open>bot.Send\<close> made by \<^verbatim>\<open>sendArticleWithFavoriteButton\<close>; \<open>ok\<close> tells whether it returned no error.
\<close>

datatype event =
    LedgerRead "64 word" string
  | LedgerWrite "64 word" string
  | LedgerReset "64 word"
  | SubsRead "64 word"
  | Fetch string
  | FavRead "64 word" string
  | Send "64 word" "64 word" Article bool
  | UpdateTs "64 word" int

text \<open>
  The state the scheduler works on: the rows \<open>(user_id, article_hash)\<close> of the table
  \<^verbatim>\<open>sent_articles\<close> (the table has no unique index, so a pair can occur in several rows), the
  field \<^verbatim>\<open>Scheduler.sentArticles\<close> (a Go map of maps, kept as association lists), the column
  \<^verbatim>\<open>last_notified_at\<close> of the table \<^verbatim>\<open>users\<close>, and the supplier calls made so far.
\<close>

record world =
  ledger :: "(64 word \<times> string) list"
  sentArticles :: "(string \<times> (string \<times> bool) list) list"
  last_notified :: "(64 word \<times> int option) list"
  events :: "event list"

text \<open>
  What the suppliers answer is not decided by the scheduler. An environment fixes, for the
  \<open>n\<close>-th supplier call of a run (\<open>n\<close> is the number of events before it), whether a database
  statement fails, what the subscription query and the fetcher return and whether
  \<^verbatim>\<open>bot.Send\<close> fails. Theorems hold for every environment unless they say otherwise.
\<close>

record env =
  ledger_read_fault :: "nat \<Rightarrow> bool"
  ledger_write_fault :: "nat \<Rightarrow> bool"
  ledger_reset_fault :: "nat \<Rightarrow> bool"
  subscriptions :: "nat \<Rightarrow> 64 word \<Rightarrow> error + string list"
  fetch_news :: "nat \<Rightarrow> string \<Rightarrow> error + Article list"
  send_fault :: "nat \<Rightarrow> bool"
  update_fault :: "nat \<Rightarrow> bool"

definition emit :: "event \<Rightarrow> world \<Rightarrow> world" where
  "emit ev w = w\<lparr>events := events w @ [ev]\<rparr>"

section \<open>Time\<close>

definition maxDuration :: int where
  "maxDuration = 2 ^ 63 - 1"

definition minDuration :: int where
  "minDuration = - (2 ^ 63)"

definition Minute :: int where
  "Minute = 60000000000"

definition Hour :: int where
  "Hour = 60 * Minute"

text \<open>\<^verbatim>\<open>t.Sub(u)\<close>: the difference, saturated to the range of a Duration.\<close>

definition time_Sub :: "int \<Rightarrow> int \<Rightarrow> int" where
  "time_Sub t u =
     (let d = t - u in
      if d > maxDuration then maxDuration
      else if d < minDuration then minDuration
      else d)"

text \<open>
  \<^verbatim>\<open>time.Duration(user.NotificationIntervalMinutes) * time.Minute\<close>: the conversion keeps the
  64 bits and the product wraps around.
\<close>

definition user_interval :: "User \<Rightarrow> int" where
  "user_interval user = sint (NotificationIntervalMinutes user * 60000000000)"

definition newsFilterThreshold :: int where
  "newsFilterThreshold = Hour * 24 * 183"

section \<open>Formatting and Go maps\<close>

text \<open>\<^verbatim>\<open>fmt.Sprintf("%d", n)\<close> for an unsigned number.\<close>

definition digit_char :: "nat \<Rightarrow> char" where
  "digit_char d = char_of (48 + d)"

fun decimal :: "nat \<Rightarrow> string" where
  "decimal n = (if n < 10 then [digit_char n] else decimal (n div 10) @ [digit_char (n mod 10)])"

declare decimal.simps [simp del]

text \<open>\<^verbatim>\<open>fmt.Sprintf("%d:%s", userID, articleHash)\<close>\<close>

definition topicKey :: "64 word \<Rightarrow> string \<Rightarrow> string" where
  "topicKey userID articleHash = decimal (unat userID) @ '':'' @ articleHash"

text \<open>\<^verbatim>\<open>len(m)\<close> of a Go map: the number of its keys.\<close>

definition map_len :: "('k \<times> 'v) list \<Rightarrow> nat" where
  "map_len m = length (remdups (map fst m))"

text \<open>\<^verbatim>\<open>s.sentArticles[key]\<close>: a missing key reads as the nil map, which has no entries.\<close>

definition segment :: "(string \<times> (string \<times> bool) list) list \<Rightarrow> string \<Rightarrow> (string \<times> bool) list" where
  "segment c k = (case map_of c k of None \<Rightarrow> [] | Some seg \<Rightarrow> seg)"

text \<open>\<^verbatim>\<open>seg[url]\<close>: a missing key reads as false.\<close>

definition flag :: "(string \<times> bool) list \<Rightarrow> string \<Rightarrow> bool" where
  "flag seg url = (case map_of seg url of None \<Rightarrow> False | Some b \<Rightarrow> b)"

section \<open>The repositories (database.go)\<close>

text \<open>
  \<^verbatim>\<open>sentArticleRepository.IsArticleSent\<close>: counts the rows of the pair; \<open>count > 0\<close>.
\<close>

definition repo_IsArticleSent :: "env \<Rightarrow> world \<Rightarrow> 64 word \<Rightarrow> string \<Rightarrow> world \<times> (error + bool)" where
  "repo_IsArticleSent e w userID articleHash =
     (let n = length (events w);
          w1 = emit (LedgerRead userID articleHash) w;
          count = length (filter (\<lambda>r. r = (userID, articleHash)) (ledger w))
      in if ledger_read_fault e n then (w1, Inl DBError) else (w1, Inr (count > 0)))"

text \<open>\<^verbatim>\<open>sentArticleRepository.MarkArticleAsSent\<close>: creates one more row.\<close>

definition repo_MarkArticleAsSent :: "env \<Rightarrow> world \<Rightarrow> 64 word \<Rightarrow> string \<Rightarrow> world \<times> error option" where
  "repo_MarkArticleAsSent e w userID articleHash =
     (let n = length (events w);
          w1 = emit (LedgerWrite userID articleHash) w
      in if ledger_write_fault e n then (w1, Some DBError)
         else (w1\<lparr>ledger := ledger w1 @ [(userID, articleHash)]\<rparr>, None))"

text \<open>
  \<^verbatim>\<open>sentArticleRepository.ResetSentArticlesHistory\<close>: deletes the rows of the user (a soft
  delete, which every later query of the model leaves out).
\<close>

definition repo_ResetSentArticlesHistory :: "env \<Rightarrow> world \<Rightarrow> 64 word \<Rightarrow> world \<times> error option" where
  "repo_ResetSentArticlesHistory e w userID =
     (let n = length (events w);
          w1 = emit (LedgerReset userID) w
      in if ledger_reset_fault e n then (w1, Some DBError)
         else (w1\<lparr>ledger := filter (\<lambda>r. fst r \<noteq> userID) (ledger w1)\<rparr>, None))"

text \<open>\<^verbatim>\<open>subscriptionRepository.GetUserSubscriptions\<close>\<close>

definition GetUserSubscriptions :: "env \<Rightarrow> world \<Rightarrow> 64 word \<Rightarrow> world \<times> (error + string list)" where
  "GetUserSubscriptions e w userID =
     (emit (SubsRead userID) w, subscriptions e (length (events w)) userID)"

text \<open>\<^verbatim>\<open>userRepository.UpdateUserLastNotifiedAt\<close>: updates the rows whose id is the user's.\<close>

definition UpdateUserLastNotifiedAt :: "env \<Rightarrow> world \<Rightarrow> 64 word \<Rightarrow> int \<Rightarrow> world \<times> error option" where
  "UpdateUserLastNotifiedAt e w userID notifyTime =
     (let n = length (events w);
          w1 = emit (UpdateTs userID notifyTime) w
      in if update_fault e n then (w1, Some DBError)
         else (w1\<lparr>last_notified :=
                 map (\<lambda>row. if fst row = userID then (fst row, Some notifyTime) else row)
                   (last_notified w1)\<rparr>, None))"

text \<open>\<^verbatim>\<open>Fetcher.FetchNews\<close>\<close>

definition FetchNews :: "env \<Rightarrow> world \<Rightarrow> string \<Rightarrow> world \<times> (error + Article list)" where
  "FetchNews e w topic = (emit (Fetch topic) w, fetch_news e (length (events w)) topic)"

section \<open>The scheduler (scheduler.go)\<close>

text \<open>
  \<^verbatim>\<open>isArticleSent\<close>: asks the repository; when the query fails, the answer is read from
  \<^verbatim>\<open>s.sentArticles\<close> under the key of user and article.
\<close>

definition isArticleSent :: "env \<Rightarrow> world \<Rightarrow> 64 word \<Rightarrow> string \<Rightarrow> world \<times> bool" where
  "isArticleSent e w userID articleURL =
     (let articleHash = articleURL in
      case repo_IsArticleSent e w userID articleHash of
        (w1, Inl err) \<Rightarrow>
          (let key = topicKey userID articleHash in
           case map_of (sentArticles w1) key of
             None \<Rightarrow> (w1, False)
           | Some seg \<Rightarrow> (w1, flag seg articleURL))
      | (w1, Inr sent) \<Rightarrow> (w1, sent))"

definition IsArticleSent :: "env \<Rightarrow> world \<Rightarrow> 64 word \<Rightarrow> string \<Rightarrow> world \<times> bool \<times> error option" where
  "IsArticleSent e w userID articleURL =
     (case isArticleSent e w userID articleURL of (w1, sent) \<Rightarrow> (w1, sent, None))"

definition maxCacheSize :: nat where
  "maxCacheSize = 100"

text \<open>
  \<^verbatim>\<open>markArticleAsSent\<close>: writes the row; when the write fails, the flag is put in
  \<^verbatim>\<open>s.sentArticles\<close> under the key of user and article, the segment of that key being emptied
  first when it holds \<open>maxCacheSize\<close> entries.
\<close>

definition markArticleAsSent :: "env \<Rightarrow> world \<Rightarrow> 64 word \<Rightarrow> string \<Rightarrow> world" where
  "markArticleAsSent e w userID articleURL =
     (let articleHash = articleURL in
      case repo_MarkArticleAsSent e w userID articleHash of
        (w1, None) \<Rightarrow> w1
      | (w1, Some err) \<Rightarrow>
          (let key = topicKey userID articleHash;
               c0 = sentArticles w1;
               c1 = (if map_of c0 key = None then AList.update key [] c0 else c0);
               c2 = (if map_len (segment c1 key) \<ge> maxCacheSize then AList.update key [] c1 else c1);
               c3 = AList.update key (AList.update articleURL True (segment c2 key)) c2
           in w1\<lparr>sentArticles := c3\<rparr>))"

definition MarkArticleAsSent :: "env \<Rightarrow> world \<Rightarrow> 64 word \<Rightarrow> string \<Rightarrow> world \<times> error option" where
  "MarkArticleAsSent e w userID articleURL =
     (case repo_MarkArticleAsSent e w userID articleURL of
        (w1, Some err) \<Rightarrow> (w1, Some err)
      | (w1, None) \<Rightarrow> (markArticleAsSent e w1 userID articleURL, None))"

text \<open>
  \<^verbatim>\<open>ResetSentArticlesHistory\<close>: resets the table, then stores an empty map under the key
  \<^verbatim>\<open>fmt.Sprintf("%d", userID)\<close>.
\<close>

definition ResetSentArticlesHistory :: "env \<Rightarrow> world \<Rightarrow> 64 word \<Rightarrow> world \<times> error option" where
  "ResetSentArticlesHistory e w userID =
     (case repo_ResetSentArticlesHistory e w userID of
        (w1, Some err) \<Rightarrow> (w1, Some err)
      | (w1, None) \<Rightarrow>
          (let userIDStr = decimal (unat userID)
           in (w1\<lparr>sentArticles := AList.update userIDStr [] (sentArticles w1)\<rparr>, None)))"

text \<open>
  \<^verbatim>\<open>sendArticleWithFavoriteButton\<close>: asks whether the article is a favourite (the answer
  only chooses the label of the button, an error is logged), then sends the message.
\<close>

definition sendArticleWithFavoriteButton ::
  "env \<Rightarrow> world \<Rightarrow> 64 word \<Rightarrow> 64 word \<Rightarrow> Article \<Rightarrow> world \<times> error option" where
  "sendArticleWithFavoriteButton e w chatID userID article =
     (let w1 = emit (FavRead userID (URL article)) w;
          ok = (\<not> send_fault e (length (events w1)));
          w2 = emit (Send chatID userID article ok) w1
      in (w2, if ok then None else Some SendError))"

text \<open>The loop over the articles of one topic (lines 343 to 348).\<close>

definition is_recent :: "int \<Rightarrow> Article \<Rightarrow> bool" where
  "is_recent now article = (time_Sub now (PublishedAt article) < newsFilterThreshold)"

fun filter_articles ::
  "env \<Rightarrow> int \<Rightarrow> 64 word \<Rightarrow> Article list \<Rightarrow> world \<times> Article list \<Rightarrow> world \<times> Article list" where
  "filter_articles e now userID [] (w, allFresh) = (w, allFresh)"
| "filter_articles e now userID (article # rest) (w, allFresh) =
     (if is_recent now article then
        (case isArticleSent e w userID (URL article) of
           (w1, sent) \<Rightarrow>
             if \<not> sent
             then filter_articles e now userID rest
                    (markArticleAsSent e w1 userID (URL article), allFresh @ [article])
             else filter_articles e now userID rest (w1, allFresh))
      else filter_articles e now userID rest (w, allFresh))"

text \<open>The loop over the topics (lines 336 to 349): a failed fetch skips the topic.\<close>

fun fetch_topics ::
  "env \<Rightarrow> int \<Rightarrow> 64 word \<Rightarrow> string list \<Rightarrow> world \<times> Article list \<Rightarrow> world \<times> Article list" where
  "fetch_topics e now userID [] (w, allFresh) = (w, allFresh)"
| "fetch_topics e now userID (topic # rest) (w, allFresh) =
     (case FetchNews e w topic of
        (w1, Inl err) \<Rightarrow> fetch_topics e now userID rest (w1, allFresh)
      | (w1, Inr articles) \<Rightarrow>
          fetch_topics e now userID rest (filter_articles e now userID articles (w1, allFresh)))"

text \<open>The loop that sends (lines 372 to 378): a failed send is logged and skipped.\<close>

fun send_articles :: "env \<Rightarrow> User \<Rightarrow> Article list \<Rightarrow> world \<Rightarrow> world" where
  "send_articles e user [] w = w"
| "send_articles e user (article # rest) w =
     send_articles e user rest
       (fst (sendArticleWithFavoriteButton e w (TelegramID user) (ID user) article))"

text \<open>
  The first half of \<^verbatim>\<open>ProcessUser\<close> (lines 311 to 349): the timing gate, the subscriptions
  and the collection of the fresh articles. \<open>None\<close> stands for the three early returns.
\<close>

definition collect_fresh :: "env \<Rightarrow> world \<Rightarrow> User \<Rightarrow> bool \<Rightarrow> int \<Rightarrow> world \<times> Article list option" where
  "collect_fresh e w user force now =
     (let interval = user_interval user;
          not_due = (case LastNotifiedAt user of
                       None \<Rightarrow> False
                     | Some lastNotifiedAt \<Rightarrow> time_Sub now lastNotifiedAt < interval)
      in if \<not> force \<and> not_due then (w, None)
         else (case GetUserSubscriptions e w (ID user) of
                 (w1, Inl err) \<Rightarrow> (w1, None)
               | (w1, Inr topics) \<Rightarrow>
                   if length topics = 0 then (w1, None)
                   else (case fetch_topics e now (ID user) topics (w1, []) of
                           (w2, allFresh) \<Rightarrow> (w2, Some allFresh))))"

text \<open>\<^verbatim>\<open>int(user.NewsLimit)\<close>, replaced by 5 when it is not positive.\<close>

definition newsLimit :: "User \<Rightarrow> int" where
  "newsLimit user = (let l = sint (NewsLimit user) in if l \<le> 0 then 5 else l)"

definition articlesToSend :: "User \<Rightarrow> Article list \<Rightarrow> Article list" where
  "articlesToSend user allFresh =
     (if int (length allFresh) > newsLimit user then take (nat (newsLimit user)) allFresh
      else allFresh)"

definition ProcessUser :: "env \<Rightarrow> world \<Rightarrow> User \<Rightarrow> bool \<Rightarrow> int \<Rightarrow> world \<times> int" where
  "ProcessUser e w user force now =
     (case collect_fresh e w user force now of
        (w1, None) \<Rightarrow> (w1, 0)
      | (w2, Some allFresh) \<Rightarrow>
          if length allFresh = 0
          then (fst (UpdateUserLastNotifiedAt e w2 (ID user) now), 0)
          else (let w3 = send_articles e user (articlesToSend user allFresh) w2;
                    w4 = fst (UpdateUserLastNotifiedAt e w3 (ID user) now)
                in (w4, int (length allFresh))))"

section \<open>Start and Stop\<close>

text \<open>
  The channel \<^verbatim>\<open>s.stop\<close> is never sent on; it is open or closed. Closing a closed channel
  is a run-time panic of Go. \<open>loops\<close> counts the goroutines started by \<^verbatim>\<open>Start\<close> that have
  not returned; each owns a running ticker.
\<close>

datatype chan_state = Open | Closed

datatype panic = CloseOfClosedChannel

record lifecycle =
  stop :: chan_state
  loops :: nat

definition NewScheduler :: lifecycle where
  "NewScheduler = \<lparr>stop = Open, loops = 0\<rparr>"

definition Start :: "lifecycle \<Rightarrow> lifecycle" where
  "Start s = s\<lparr>loops := Suc (loops s)\<rparr>"

definition Stop :: "lifecycle \<Rightarrow> panic + lifecycle" where
  "Stop s = (if stop s = Closed then Inl CloseOfClosedChannel else Inr (s\<lparr>stop := Closed\<rparr>))"

text \<open>
  One round of the \<^verbatim>\<open>select\<close> of a running loop. The case of the ticker runs
  \<^verbatim>\<open>sendNewsUpdates\<close> and loops; the case of \<^verbatim>\<open>s.stop\<close> can be taken only when the channel is
  closed, and then the loop stops its ticker and returns.
\<close>

datatype select_case = TickerC | StopC

datatype round = Continue lifecycle | Return lifecycle | Blocked

definition loop_round :: "select_case \<Rightarrow> lifecycle \<Rightarrow> round" where
  "loop_round c s =
     (if loops s = 0 then Blocked
      else case c of
             TickerC \<Rightarrow> Continue s
           | StopC \<Rightarrow> if stop s = Closed then Return (s\<lparr>loops := loops s - 1\<rparr>) else Blocked)"

section \<open>Observing a run\<close>

text \<open>The calls of \<^verbatim>\<open>bot.Send\<close> among the events: user, article and whether it succeeded.\<close>

fun pushes :: "event list \<Rightarrow> (64 word \<times> Article \<times> bool) list" where
  "pushes [] = []"
| "pushes (Send chat u a ok # evs) = (u, a, ok) # pushes evs"
| "pushes (ev # evs) = pushes evs"

text \<open>The articles pushed to the sink for one user, in order.\<close>

definition sent_to :: "64 word \<Rightarrow> event list \<Rightarrow> Article list" where
  "sent_to u evs = map (\<lambda>p. fst (snd p)) (filter (\<lambda>p. fst p = u) (pushes evs))"

text \<open>The articles pushed, and those pushed with success, between two states of one run.\<close>

definition pass_articles :: "world \<Rightarrow> world \<Rightarrow> Article list" where
  "pass_articles w w' = map (\<lambda>p. fst (snd p)) (pushes (drop (length (events w)) (events w')))"

definition pass_delivered :: "world \<Rightarrow> world \<Rightarrow> Article list" where
  "pass_delivered w w' =
     map (\<lambda>p. fst (snd p))
       (filter (\<lambda>p. snd (snd p)) (pushes (drop (length (events w)) (events w'))))"

text \<open>Every read and write of the ledger succeeds.\<close>

definition ledger_ok :: "env \<Rightarrow> bool" where
  "ledger_ok e = (\<forall>n. \<not> ledger_read_fault e n \<and> \<not> ledger_write_fault e n)"

text \<open>Calls of \<^verbatim>\<open>ProcessUser\<close> one after the other, for any users, forced or not.\<close>

fun run :: "env \<Rightarrow> world \<Rightarrow> (User \<times> bool \<times> int) list \<Rightarrow> world" where
  "run e w [] = w"
| "run e w ((user, force, now) # calls) = run e (fst (ProcessUser e w user force now)) calls"

text \<open>
  What sequential passes keep true when the ledger works: the articles pushed to a user
  have different URLs, and each of them has a row in the ledger.
\<close>

definition dedup_inv :: "world \<Rightarrow> bool" where
  "dedup_inv w =
     (\<forall>u. distinct (map URL (sent_to u (events w))) \<and>
          (\<forall>a \<in> set (sent_to u (events w)). (u, URL a) \<in> set (ledger w)))"

text \<open>
  The keys of \<^verbatim>\<open>s.sentArticles\<close> that belong to a user: the key \<^verbatim>\<open>"%d"\<close> written by the reset
  and the keys \<^verbatim>\<open>"%d:%s"\<close> written by \<^verbatim>\<open>markArticleAsSent\<close>; and the number of flags the cache
  holds under them.
\<close>

definition user_key :: "64 word \<Rightarrow> string \<Rightarrow> bool" where
  "user_key u k =
     (k = decimal (unat u) \<or>
      take (Suc (length (decimal (unat u)))) k = decimal (unat u) @ '':'')"

definition user_cache_entries :: "64 word \<Rightarrow> (string \<times> (string \<times> bool) list) list \<Rightarrow> nat" where
  "user_cache_entries u c =
     sum_list (map (\<lambda>kv. map_len (snd kv)) (filter (\<lambda>kv. user_key u (fst kv)) c))"

text \<open>\<^verbatim>\<open>markArticleAsSent\<close> for one article after the other.\<close>

fun mark_all :: "env \<Rightarrow> world \<Rightarrow> 64 word \<Rightarrow> string list \<Rightarrow> world" where
  "mark_all e w u [] = w"
| "mark_all e w u (url # urls) = mark_all e (markArticleAsSent e w u url) u urls"

text \<open>Every write of the ledger fails.\<close>

definition writes_fail :: "env \<Rightarrow> bool" where
  "writes_fail e = (\<forall>n. ledger_write_fault e n)"

text \<open>Every read and write of the ledger fails.\<close>

definition ledger_down :: "env \<Rightarrow> bool" where
  "ledger_down e = (\<forall>n. ledger_read_fault e n \<and> ledger_write_fault e n)"

section \<open>Concrete states and environments\<close>

text \<open>A freshly started process: no rows, an empty cache, one registered user, no calls yet.\<close>

definition world0 :: world where
  "world0 = \<lparr>ledger = [], sentArticles = [], last_notified = [(1, None)], events = []\<rparr>"

definition article :: "string \<Rightarrow> int \<Rightarrow> Article" where
  "article url published =
     \<lparr>Title = url, Description = [], URL = url, PublishedAt = published, SourceName = []\<rparr>"

text \<open>
  An environment in which nothing fails: the user follows two topics, and the article
  \<open>''b''\<close> is returned for both.
\<close>

definition env_ok :: env where
  "env_ok =
     \<lparr>ledger_read_fault = (\<lambda>n. False),
      ledger_write_fault = (\<lambda>n. False),
      ledger_reset_fault = (\<lambda>n. False),
      subscriptions = (\<lambda>n u. Inr [''tech'', ''sport'']),
      fetch_news = (\<lambda>n topic.
         if topic = ''tech'' then Inr [article ''a'' 0, article ''b'' 0]
         else Inr [article ''b'' 0, article ''c'' 0]),
      send_fault = (\<lambda>n. False),
      update_fault = (\<lambda>n. False)\<rparr>"

text \<open>The same environment with a database that refuses every statement on the ledger.\<close>

definition env_ledger_down :: env where
  "env_ledger_down =
     env_ok\<lparr>ledger_read_fault := (\<lambda>n. True), ledger_write_fault := (\<lambda>n. True)\<rparr>"

definition user1 :: User where
  "user1 = \<lparr>ID = 1, TelegramID = 77, NotificationIntervalMinutes = 60,
     LastNotifiedAt = None, NewsLimit = 5\<rparr>"

text \<open>
  Users and environments for the examples: a user notified at instant 1000, a user whose
  limit is stored as 0, a source that returns eight articles while the first \<^verbatim>\<open>bot.Send\<close>
  of the pass (supplier call 19) fails, and a source that returns an article of 200 days
  ago and one of 10 days ago.
\<close>

definition user_notified :: User where
  "user_notified = user1\<lparr>LastNotifiedAt := Some 1000\<rparr>"

definition articles8 :: "Article list" where
  "articles8 = map (\<lambda>url. article url 0)
     [''n1'', ''n2'', ''n3'', ''n4'', ''n5'', ''n6'', ''n7'', ''n8'']"

definition env8 :: env where
  "env8 = env_ok\<lparr>subscriptions := (\<lambda>n u. Inr [''tech'']),
                 fetch_news := (\<lambda>n topic. Inr articles8),
                 send_fault := (\<lambda>n. n = 19)\<rparr>"

definition user_nolimit :: User where
  "user_nolimit = user1\<lparr>NewsLimit := 0\<rparr>"

definition old_article :: Article where
  "old_article = article ''old'' (100 * 24 * Hour)"

definition new_article :: Article where
  "new_article = article ''new'' (290 * 24 * Hour)"

definition env_archive :: env where
  "env_archive = env_ok\<lparr>subscriptions := (\<lambda>n u. Inr [''tech'']),
                 fetch_news := (\<lambda>n topic. Inr [old_article, new_article])\<rparr>"

text \<open>The state after user 1 has been marked as having received \<open>''a''\<close>.\<close>

definition world_marked :: world where
  "world_marked = fst (MarkArticleAsSent env_ok world0 1 ''a'')"

text \<open>A database that accepts writes and refuses reads, and 101 different URLs.\<close>

definition env_read_down :: env where
  "env_read_down = env_ok\<lparr>ledger_read_fault := (\<lambda>n. True)\<rparr>"

definition urls101 :: "string list" where
  "urls101 = map (\<lambda>i. ''n'' @ decimal i) [0..<101]"

text \<open>A source that returns 101 articles with these URLs while the ledger is down.\<close>

definition env101 :: env where
  "env101 = env_ledger_down\<lparr>subscriptions := (\<lambda>n u. Inr [''tech'']),
     fetch_news := (\<lambda>n topic. Inr (map (\<lambda>url. article url 0) urls101))\<rparr>"

section \<open>Supplier calls and pushes of the loops\<close>

lemma pushes_append [simp]: "pushes (xs @ ys) = pushes xs @ pushes ys"
  by (induction xs rule: pushes.induct) simp_all

lemma isArticleSent_events:
  "events (fst (isArticleSent e w u a)) = events w @ [LedgerRead u a]"
  by (simp add: isArticleSent_def repo_IsArticleSent_def emit_def Let_def split: option.splits)

lemma markArticleAsSent_events:
  "events (markArticleAsSent e w u a) = events w @ [LedgerWrite u a]"
  by (simp add: markArticleAsSent_def repo_MarkArticleAsSent_def emit_def Let_def)

lemma filter_articles_events:
  "\<exists>evs. events (fst (filter_articles e now u as (w, acc))) = events w @ evs \<and> pushes evs = []"
proof (induction as arbitrary: w acc)
  case Nil
  then show ?case by simp
next
  case (Cons a as)
  show ?case
  proof (cases "is_recent now a")
    case False
    then show ?thesis using Cons.IH [of w acc] by simp
  next
    case True
    obtain w1 sent where r: "isArticleSent e w u (URL a) = (w1, sent)" by force
    have e1: "events w1 = events w @ [LedgerRead u (URL a)]"
      using isArticleSent_events [of e w u "URL a"] r by simp
    show ?thesis
    proof (cases sent)
      case True
      obtain evs where "events (fst (filter_articles e now u as (w1, acc))) = events w1 @ evs"
        "pushes evs = []" using Cons.IH [of w1 acc] by blast
      then show ?thesis using \<open>is_recent now a\<close> r True e1 by simp
    next
      case False
      let ?w2 = "markArticleAsSent e w1 u (URL a)"
      obtain evs where "events (fst (filter_articles e now u as (?w2, acc @ [a]))) = events ?w2 @ evs"
        "pushes evs = []" using Cons.IH [of ?w2 "acc @ [a]"] by blast
      then show ?thesis using \<open>is_recent now a\<close> r False e1 markArticleAsSent_events [of e w1 u "URL a"]
        by simp
    qed
  qed
qed

lemma fetch_topics_events:
  "\<exists>evs. events (fst (fetch_topics e now u ts (w, acc))) = events w @ evs \<and> pushes evs = []"
proof (induction ts arbitrary: w acc)
  case Nil
  then show ?case by simp
next
  case (Cons t ts)
  let ?w1 = "emit (Fetch t) w"
  show ?case
  proof (cases "fetch_news e (length (events w)) t")
    case (Inl err)
    obtain evs where "events (fst (fetch_topics e now u ts (?w1, acc))) = events ?w1 @ evs"
      "pushes evs = []" using Cons.IH [of ?w1 acc] by blast
    then show ?thesis using Inl by (simp add: FetchNews_def emit_def)
  next
    case (Inr arts)
    obtain w2 acc2 where f: "filter_articles e now u arts (?w1, acc) = (w2, acc2)" by force
    obtain evs1 where e1: "events w2 = events ?w1 @ evs1" "pushes evs1 = []"
      using filter_articles_events [of e now u arts ?w1 acc] f by auto
    obtain evs where "events (fst (fetch_topics e now u ts (w2, acc2))) = events w2 @ evs"
      "pushes evs = []" using Cons.IH [of w2 acc2] by blast
    then show ?thesis using Inr f e1 by (simp add: FetchNews_def emit_def)
  qed
qed

lemma filter_articles_recent:
  "list_all (is_recent now) acc \<Longrightarrow>
   list_all (is_recent now) (snd (filter_articles e now u as (w, acc)))"
proof (induction as arbitrary: w acc)
  case Nil
  then show ?case by simp
next
  case (Cons a as)
  then show ?case by (auto split: prod.splits)
qed

lemma fetch_topics_recent:
  "list_all (is_recent now) acc \<Longrightarrow>
   list_all (is_recent now) (snd (fetch_topics e now u ts (w, acc)))"
proof (induction ts arbitrary: w acc)
  case Nil
  then show ?case by simp
next
  case (Cons t ts)
  show ?case
  proof (cases "fetch_news e (length (events w)) t")
    case (Inl err)
    then show ?thesis using Cons by (simp add: FetchNews_def)
  next
    case (Inr arts)
    obtain w2 acc2 where f: "filter_articles e now u arts (emit (Fetch t) w, acc) = (w2, acc2)"
      by force
    have "list_all (is_recent now) acc2"
      using filter_articles_recent [OF Cons.prems, of e u arts "emit (Fetch t) w"] f by simp
    then show ?thesis using Inr f Cons.IH [of acc2 w2] by (simp add: FetchNews_def)
  qed
qed

lemma send_articles_events:
  "\<exists>evs. events (send_articles e user as w) = events w @ evs \<and>
     map (\<lambda>p. (fst p, fst (snd p))) (pushes evs) = map (Pair (ID user)) as"
proof (induction as arbitrary: w)
  case Nil
  then show ?case by simp
next
  case (Cons a as)
  let ?w1 = "fst (sendArticleWithFavoriteButton e w (TelegramID user) (ID user) a)"
  obtain ok where e1: "events ?w1 = events w @ [FavRead (ID user) (URL a), Send (TelegramID user) (ID user) a ok]"
    by (simp add: sendArticleWithFavoriteButton_def emit_def Let_def)
  obtain evs where "events (send_articles e user as ?w1) = events ?w1 @ evs"
    "map (\<lambda>p. (fst p, fst (snd p))) (pushes evs) = map (Pair (ID user)) as"
    using Cons.IH [of ?w1] by blast
  then show ?case using e1 by simp
qed

lemma send_articles_ledger: "ledger (send_articles e user as w) = ledger w"
  by (induction as arbitrary: w)
     (simp_all add: sendArticleWithFavoriteButton_def emit_def Let_def)

lemma UpdateUserLastNotifiedAt_events:
  "events (fst (UpdateUserLastNotifiedAt e w u t)) = events w @ [UpdateTs u t] \<and>
   ledger (fst (UpdateUserLastNotifiedAt e w u t)) = ledger w"
  by (simp add: UpdateUserLastNotifiedAt_def emit_def Let_def)

lemma collect_fresh_events:
  "\<exists>evs. events (fst (collect_fresh e w user force now)) = events w @ evs \<and> pushes evs = []"
proof (cases "fst (collect_fresh e w user force now) = w")
  case True
  then show ?thesis by simp
next
  case False
  let ?w1 = "emit (SubsRead (ID user)) w"
  have e1: "events ?w1 = events w @ [SubsRead (ID user)]" by (simp add: emit_def)
  show ?thesis
  proof (cases "subscriptions e (length (events w)) (ID user)")
    case (Inl err)
    then show ?thesis using False e1
      by (auto simp add: collect_fresh_def GetUserSubscriptions_def Let_def split: if_splits)
  next
    case (Inr topics)
    obtain evs where ft: "events (fst (fetch_topics e now (ID user) topics (?w1, []))) = events ?w1 @ evs"
      "pushes evs = []" using fetch_topics_events [of e now "ID user" topics ?w1 "[]"] by blast
    show ?thesis using False e1 Inr ft
      by (auto simp add: collect_fresh_def GetUserSubscriptions_def Let_def
          split: if_splits prod.splits)
  qed
qed

lemma ProcessUser_events:
  assumes "collect_fresh e w user force now = (w2, r)"
  shows "\<exists>evs. events (fst (ProcessUser e w user force now)) = events w @ evs \<and>
     map (\<lambda>p. (fst p, fst (snd p))) (pushes evs) =
       map (Pair (ID user)) (case r of None \<Rightarrow> [] | Some fresh \<Rightarrow> articlesToSend user fresh)"
proof -
  obtain evs0 where e0: "events w2 = events w @ evs0" "pushes evs0 = []"
    using collect_fresh_events [of e w user force now] assms by auto
  show ?thesis
  proof (cases r)
    case None
    then show ?thesis using assms e0 by (simp add: ProcessUser_def)
  next
    case (Some fresh)
    show ?thesis
    proof (cases "fresh = []")
      case True
      then show ?thesis using assms Some e0 UpdateUserLastNotifiedAt_events [of e w2 "ID user" now]
        by (simp add: ProcessUser_def articlesToSend_def)
    next
      case False
      let ?w3 = "send_articles e user (articlesToSend user fresh) w2"
      obtain evs where s: "events ?w3 = events w2 @ evs"
        "map (\<lambda>p. (fst p, fst (snd p))) (pushes evs) = map (Pair (ID user)) (articlesToSend user fresh)"
        using send_articles_events [of e user "articlesToSend user fresh" w2] by blast
      show ?thesis using assms Some False e0 s UpdateUserLastNotifiedAt_events [of e ?w3 "ID user" now]
        by (simp add: ProcessUser_def Let_def)
    qed
  qed
qed

lemma ProcessUser_ledger:
  assumes "collect_fresh e w user force now = (w2, r)"
  shows "ledger (fst (ProcessUser e w user force now)) = ledger w2"
  using assms UpdateUserLastNotifiedAt_events send_articles_ledger
  by (auto simp add: ProcessUser_def Let_def split: option.splits)

lemma pass_articles_ProcessUser:
  assumes "collect_fresh e w user force now = (w2, r)"
  shows "pass_articles w (fst (ProcessUser e w user force now)) =
     (case r of None \<Rightarrow> [] | Some fresh \<Rightarrow> articlesToSend user fresh)"
proof -
  obtain evs where ev: "events (fst (ProcessUser e w user force now)) = events w @ evs"
    "map (\<lambda>p. (fst p, fst (snd p))) (pushes evs) =
       map (Pair (ID user)) (case r of None \<Rightarrow> [] | Some fresh \<Rightarrow> articlesToSend user fresh)"
    using ProcessUser_events [OF assms] by blast
  have "map snd (map (\<lambda>p. (fst p, fst (snd p))) (pushes evs)) =
      map snd (map (Pair (ID user)) (case r of None \<Rightarrow> [] | Some fresh \<Rightarrow> articlesToSend user fresh))"
    using ev(2) by simp
  then have "map (\<lambda>p. fst (snd p)) (pushes evs) =
      (case r of None \<Rightarrow> [] | Some fresh \<Rightarrow> articlesToSend user fresh)"
    by (simp add: comp_def)
  then show ?thesis using ev(1) by (simp add: pass_articles_def)
qed

section \<open>Deduplication when the ledger works\<close>

lemma sent_to_append [simp]: "sent_to u (xs @ ys) = sent_to u xs @ sent_to u ys"
  by (simp add: sent_to_def)

lemma sent_to_no_pushes: "pushes evs = [] \<Longrightarrow> sent_to u evs = []"
  by (simp add: sent_to_def)

lemma isArticleSent_ok:
  "ledger_ok e \<Longrightarrow>
   isArticleSent e w u a = (emit (LedgerRead u a) w, (u, a) \<in> set (ledger w))"
  by (auto simp add: ledger_ok_def isArticleSent_def repo_IsArticleSent_def Let_def
      filter_empty_conv)

lemma markArticleAsSent_ok:
  "ledger_ok e \<Longrightarrow>
   ledger (markArticleAsSent e w u a) = ledger w @ [(u, a)] \<and>
   sentArticles (markArticleAsSent e w u a) = sentArticles w"
  by (simp add: ledger_ok_def markArticleAsSent_def repo_MarkArticleAsSent_def emit_def Let_def)

lemma filter_articles_ok:
  assumes "ledger_ok e"
  shows "\<exists>new. snd (filter_articles e now u as (w, acc)) = acc @ new \<and>
     ledger (fst (filter_articles e now u as (w, acc))) = ledger w @ map (\<lambda>a. (u, URL a)) new \<and>
     distinct (map URL new) \<and> (\<forall>a \<in> set new. (u, URL a) \<notin> set (ledger w))"
proof (induction as arbitrary: w acc)
  case Nil
  then show ?case by simp
next
  case (Cons a as)
  let ?w1 = "emit (LedgerRead u (URL a)) w"
  have l1: "ledger ?w1 = ledger w" by (simp add: emit_def)
  show ?case
  proof (cases "is_recent now a \<and> (u, URL a) \<notin> set (ledger w)")
    case False
    then show ?thesis
      using Cons.IH [of w acc] Cons.IH [of ?w1 acc] l1 isArticleSent_ok [OF assms, of w u "URL a"]
      by auto
  next
    case True
    let ?w2 = "markArticleAsSent e ?w1 u (URL a)"
    have l2: "ledger ?w2 = ledger w @ [(u, URL a)]"
      using markArticleAsSent_ok [OF assms, of ?w1 u "URL a"] l1 by simp
    obtain new where n: "snd (filter_articles e now u as (?w2, acc @ [a])) = (acc @ [a]) @ new"
      "ledger (fst (filter_articles e now u as (?w2, acc @ [a]))) =
         ledger ?w2 @ map (\<lambda>a. (u, URL a)) new"
      "distinct (map URL new)" "\<forall>b \<in> set new. (u, URL b) \<notin> set (ledger ?w2)"
      using Cons.IH [of ?w2 "acc @ [a]"] by blast
    have step: "filter_articles e now u (a # as) (w, acc) =
        filter_articles e now u as (?w2, acc @ [a])"
      using True isArticleSent_ok [OF assms, of w u "URL a"] by simp
    have "URL a \<notin> set (map URL new)" using n(4) l2 by auto
    then have "snd (filter_articles e now u (a # as) (w, acc)) = acc @ (a # new) \<and>
      ledger (fst (filter_articles e now u (a # as) (w, acc))) =
        ledger w @ map (\<lambda>a. (u, URL a)) (a # new) \<and>
      distinct (map URL (a # new)) \<and> (\<forall>b \<in> set (a # new). (u, URL b) \<notin> set (ledger w))"
      using step n l2 True by auto
    then show ?thesis by blast
  qed
qed

lemma fetch_topics_ok:
  assumes "ledger_ok e"
  shows "\<exists>new. snd (fetch_topics e now u ts (w, acc)) = acc @ new \<and>
     ledger (fst (fetch_topics e now u ts (w, acc))) = ledger w @ map (\<lambda>a. (u, URL a)) new \<and>
     distinct (map URL new) \<and> (\<forall>a \<in> set new. (u, URL a) \<notin> set (ledger w))"
proof (induction ts arbitrary: w acc)
  case Nil
  then show ?case by simp
next
  case (Cons t ts)
  let ?w1 = "emit (Fetch t) w"
  have l1: "ledger ?w1 = ledger w" by (simp add: emit_def)
  show ?case
  proof (cases "fetch_news e (length (events w)) t")
    case (Inl err)
    then show ?thesis using Cons.IH [of ?w1 acc] l1 by (simp add: FetchNews_def)
  next
    case (Inr arts)
    obtain w2 acc2 where f: "filter_articles e now u arts (?w1, acc) = (w2, acc2)" by force
    obtain new1 where n1: "acc2 = acc @ new1"
      "ledger w2 = ledger w @ map (\<lambda>a. (u, URL a)) new1"
      "distinct (map URL new1)" "\<forall>a \<in> set new1. (u, URL a) \<notin> set (ledger w)"
      using filter_articles_ok [OF assms, of now u arts ?w1 acc] f l1 by auto
    obtain new2 where n2: "snd (fetch_topics e now u ts (w2, acc2)) = acc2 @ new2"
      "ledger (fst (fetch_topics e now u ts (w2, acc2))) = ledger w2 @ map (\<lambda>a. (u, URL a)) new2"
      "distinct (map URL new2)" "\<forall>a \<in> set new2. (u, URL a) \<notin> set (ledger w2)"
      using Cons.IH [of w2 acc2] by blast
    have step: "fetch_topics e now u (t # ts) (w, acc) = fetch_topics e now u ts (w2, acc2)"
      using Inr f by (simp add: FetchNews_def)
    have "URL a \<noteq> URL b" if a: "a \<in> set new1" and b: "b \<in> set new2" for a b
    proof
      assume eq: "URL a = URL b"
      have "(u, URL a) \<in> set (ledger w2)" using n1(2) a by simp
      then have "(u, URL b) \<in> set (ledger w2)" using eq by simp
      then show False using n2(4) b by blast
    qed
    then have disj: "set (map URL new1) \<inter> set (map URL new2) = {}"
      by auto
    have "snd (fetch_topics e now u (t # ts) (w, acc)) = acc @ (new1 @ new2) \<and>
      ledger (fst (fetch_topics e now u (t # ts) (w, acc))) =
        ledger w @ map (\<lambda>a. (u, URL a)) (new1 @ new2) \<and>
      distinct (map URL (new1 @ new2)) \<and>
      (\<forall>a \<in> set (new1 @ new2). (u, URL a) \<notin> set (ledger w))"
      using step n1 n2 disj by auto
    then show ?thesis by blast
  qed
qed

lemma collect_fresh_ok:
  assumes "ledger_ok e" and "collect_fresh e w user force now = (w2, r)"
  shows "ledger w2 = ledger w @ map (\<lambda>a. (ID user, URL a)) (case r of None \<Rightarrow> [] | Some f \<Rightarrow> f) \<and>
     distinct (map URL (case r of None \<Rightarrow> [] | Some f \<Rightarrow> f)) \<and>
     (\<forall>a \<in> set (case r of None \<Rightarrow> [] | Some f \<Rightarrow> f). (ID user, URL a) \<notin> set (ledger w))"
proof (cases r)
  case None
  then have "ledger w2 = ledger w" using assms(2)
    by (auto simp add: collect_fresh_def GetUserSubscriptions_def emit_def Let_def
        split: if_splits sum.splits prod.splits)
  then show ?thesis using None by simp
next
  case (Some fresh)
  let ?w1 = "emit (SubsRead (ID user)) w"
  have l1: "ledger ?w1 = ledger w" by (simp add: emit_def)
  obtain topics where ft: "fetch_topics e now (ID user) topics (?w1, []) = (w2, fresh)"
    using assms(2) Some
    by (auto simp add: collect_fresh_def GetUserSubscriptions_def Let_def
        split: if_splits sum.splits prod.splits)
  show ?thesis
    using fetch_topics_ok [OF assms(1), of now "ID user" topics ?w1 "[]"] ft l1 Some by auto
qed

lemma sent_to_projection:
  assumes "map (\<lambda>p. (fst p, fst (snd p))) (pushes evs) = map (Pair v) xs"
  shows "sent_to u evs = (if u = v then xs else [])"
proof -
  have "sent_to u evs =
      map snd (filter (\<lambda>q. fst q = u) (map (\<lambda>p. (fst p, fst (snd p))) (pushes evs)))"
    by (simp add: sent_to_def filter_map comp_def)
  also have "\<dots> = map snd (filter (\<lambda>q. fst q = u) (map (Pair v) xs))"
    using assms by simp
  also have "\<dots> = (if u = v then xs else [])"
    by (induction xs) auto
  finally show ?thesis .
qed

lemma articlesToSend_subset: "set (articlesToSend user fresh) \<subseteq> set fresh"
  by (auto simp add: articlesToSend_def dest: in_set_takeD)

lemma articlesToSend_distinct:
  "distinct (map URL fresh) \<Longrightarrow> distinct (map URL (articlesToSend user fresh))"
  by (simp add: articlesToSend_def take_map [symmetric])

lemma ProcessUser_dedup_inv:
  assumes ok: "ledger_ok e" and inv: "dedup_inv w"
  shows "dedup_inv (fst (ProcessUser e w user force now))"
proof -
  let ?w' = "fst (ProcessUser e w user force now)"
  obtain w2 r where cf: "collect_fresh e w user force now = (w2, r)" by force
  let ?fresh = "case r of None \<Rightarrow> [] | Some f \<Rightarrow> f"
  let ?out = "case r of None \<Rightarrow> [] | Some f \<Rightarrow> articlesToSend user f"
  have led: "ledger ?w' = ledger w @ map (\<lambda>a. (ID user, URL a)) ?fresh"
    and dis: "distinct (map URL ?fresh)"
    and new: "\<forall>a \<in> set ?fresh. (ID user, URL a) \<notin> set (ledger w)"
    using collect_fresh_ok [OF ok cf] ProcessUser_ledger [OF cf] by simp_all
  obtain evs where ev: "events ?w' = events w @ evs"
    "map (\<lambda>p. (fst p, fst (snd p))) (pushes evs) = map (Pair (ID user)) ?out"
    using ProcessUser_events [OF cf] by blast
  have sub: "set ?out \<subseteq> set ?fresh"
    using articlesToSend_subset by (cases r) auto
  have dout: "distinct (map URL ?out)"
    using dis articlesToSend_distinct by (cases r) auto
  have st: "sent_to u (events ?w') = sent_to u (events w) @ (if u = ID user then ?out else [])" for u
    using ev sent_to_projection [OF ev(2), of u] by simp
  have "distinct (map URL (sent_to u (events ?w'))) \<and>
        (\<forall>a \<in> set (sent_to u (events ?w')). (u, URL a) \<in> set (ledger ?w'))" for u
  proof (cases "u = ID user")
    case False
    then show ?thesis using inv st [of u] led by (auto simp add: dedup_inv_def)
  next
    case True
    have old: "distinct (map URL (sent_to u (events w)))"
      "\<forall>a \<in> set (sent_to u (events w)). (u, URL a) \<in> set (ledger w)"
      using inv by (simp_all add: dedup_inv_def)
    have "URL a \<noteq> URL b" if a: "a \<in> set (sent_to u (events w))" and b: "b \<in> set ?out" for a b
    proof
      assume eq: "URL a = URL b"
      have "(u, URL a) \<in> set (ledger w)" using old(2) a by blast
      then have "(ID user, URL b) \<in> set (ledger w)" using eq True by simp
      moreover have "b \<in> set ?fresh" using sub b by blast
      ultimately show False using new by blast
    qed
    then have disj: "set (map URL (sent_to u (events w))) \<inter> set (map URL ?out) = {}"
      by auto
    have mem: "(u, URL a) \<in> set (ledger ?w')" if "a \<in> set ?out" for a
    proof -
      have "a \<in> set ?fresh" using sub that by blast
      then show ?thesis using led True by simp
    qed
    have keep: "(u, URL a) \<in> set (ledger ?w')" if "a \<in> set (sent_to u (events w))" for a
      using old(2) that led by simp
    have d: "distinct (map URL (sent_to u (events ?w')))"
      using True st [of u] old(1) dout disj by simp
    have m: "\<forall>a \<in> set (sent_to u (events ?w')). (u, URL a) \<in> set (ledger ?w')"
    proof
      fix a
      assume "a \<in> set (sent_to u (events ?w'))"
      then have "a \<in> set (sent_to u (events w)) \<or> a \<in> set ?out"
        using True st [of u] by simp
      then show "(u, URL a) \<in> set (ledger ?w')" using keep mem by blast
    qed
    show ?thesis using d m by blast
  qed
  then show ?thesis by (simp add: dedup_inv_def)
qed

lemma run_dedup_inv:
  "ledger_ok e \<Longrightarrow> dedup_inv w \<Longrightarrow> dedup_inv (run e w calls)"
proof (induction calls arbitrary: w)
  case Nil
  then show ?case by simp
next
  case (Cons c calls)
  obtain user force now where c: "c = (user, force, now)" by (cases c) auto
  show ?case using Cons ProcessUser_dedup_inv [of e w user force now] c by simp
qed

lemma ledger_ok_env_ok: "ledger_ok env_ok"
  by (simp add: ledger_ok_def env_ok_def)

text \<open>
  C1. Assume every read and write of the ledger succeeds. Start from a state in which no
  supplier call has been made yet and make any sequence of \<^verbatim>\<open>ProcessUser\<close> calls, for any
  users, forced or scheduled. Then the articles pushed to the sink for a user all have
  different URLs: an article is pushed at most once, within one pass (also when two
  topics return it) and across passes.
\<close>

theorem at_most_once:
  assumes "ledger_ok e" and "events w0 = []"
  shows "distinct (map URL (sent_to u (events (run e w0 calls))))"
proof -
  have "dedup_inv w0" using assms(2) by (simp add: dedup_inv_def sent_to_def)
  then have "dedup_inv (run e w0 calls)" using assms(1) by (rule run_dedup_inv [rotated])
  then show ?thesis by (simp add: dedup_inv_def)
qed

theorem at_most_once_witness:
  "ledger_ok env_ok \<and> events world0 = [] \<and>
   map URL (sent_to 1 (events (run env_ok world0 [(user1, True, 1000), (user1, True, 2000)])))
     = [''a'', ''b'', ''c''] \<and>
   distinct (map URL
     (sent_to 1 (events (run env_ok world0 [(user1, True, 1000), (user1, True, 2000)]))))"
proof -
  have h: "events world0 = []" by (simp add: world0_def)
  have v: "map URL (sent_to 1 (events (run env_ok world0 [(user1, True, 1000), (user1, True, 2000)])))
     = [''a'', ''b'', ''c'']" by code_simp
  show ?thesis
    using at_most_once [OF ledger_ok_env_ok h, of 1 "[(user1, True, 1000), (user1, True, 2000)]"]
      ledger_ok_env_ok h v by blast
qed

section \<open>The timing gate\<close>

lemma time_Sub_exact:
  "minDuration \<le> t - u \<Longrightarrow> t - u \<le> maxDuration \<Longrightarrow> time_Sub t u = t - u"
  by (simp add: time_Sub_def Let_def)

lemma user_interval_exact:
  assumes "uint (NotificationIntervalMinutes user) * Minute < 2 ^ 63"
  shows "user_interval user = uint (NotificationIntervalMinutes user) * Minute"
proof -
  let ?m = "NotificationIntervalMinutes user"
  have c: "uint (60000000000 :: 64 word) = 60000000000" by simp
  have b: "uint ?m * 60000000000 < 2 ^ 63"
    using assms by (simp add: Minute_def)
  have "uint ?m * uint (60000000000 :: 64 word) < 2 ^ LENGTH(64)"
    using b c by simp
  then have ui: "uint (?m * 60000000000) = uint ?m * 60000000000"
    using uint_mult_lem [of ?m "60000000000 :: 64 word"] c by simp
  have nn: "0 \<le> uint ?m * 60000000000" by simp
  have "sint (?m * 60000000000) = signed_take_bit 63 (uint ?m * 60000000000)"
    using ui by (simp add: sint_uint)
  also have "\<dots> = uint ?m * 60000000000"
  proof (rule signed_take_bit_int_eq_self)
    show "- (2 ^ 63) \<le> uint ?m * 60000000000"
      using nn by (rule order_trans [rotated]) simp
    show "uint ?m * 60000000000 < 2 ^ 63" by (rule b)
  qed
  finally show ?thesis by (simp add: user_interval_def Minute_def)
qed


lemma send_articles_user:
  "ID u' = ID u \<Longrightarrow> TelegramID u' = TelegramID u \<Longrightarrow>
   send_articles e u' as w = send_articles e u as w"
  by (induction as arbitrary: w) simp_all

lemma ProcessUser_extends:
  "\<exists>evs. events (fst (ProcessUser e w user force now)) =
     events (fst (collect_fresh e w user force now)) @ evs"
proof -
  obtain w2 r where cf: "collect_fresh e w user force now = (w2, r)" by force
  show ?thesis
  proof (cases r)
    case None
    then show ?thesis using cf by (simp add: ProcessUser_def)
  next
    case (Some fresh)
    let ?w3 = "send_articles e user (articlesToSend user fresh) w2"
    obtain evs where s: "events ?w3 = events w2 @ evs"
      using send_articles_events [of e user "articlesToSend user fresh" w2] by blast
    show ?thesis
      using cf Some s UpdateUserLastNotifiedAt_events [of e ?w3 "ID user" now]
        UpdateUserLastNotifiedAt_events [of e w2 "ID user" now]
      by (simp add: ProcessUser_def Let_def)
  qed
qed

lemma collect_fresh_forced:
  "\<exists>rest. events (fst (collect_fresh e w user True now)) = events w @ SubsRead (ID user) # rest"
proof -
  let ?w1 = "emit (SubsRead (ID user)) w"
  have e1: "events ?w1 = events w @ [SubsRead (ID user)]" by (simp add: emit_def)
  show ?thesis
  proof (cases "subscriptions e (length (events w)) (ID user)")
    case (Inl err)
    then show ?thesis using e1
      by (simp add: collect_fresh_def GetUserSubscriptions_def Let_def)
  next
    case (Inr topics)
    obtain evs where ft: "events (fst (fetch_topics e now (ID user) topics (?w1, []))) = events ?w1 @ evs"
      using fetch_topics_events [of e now "ID user" topics ?w1 "[]"] by blast
    show ?thesis using e1 Inr ft
      by (auto simp add: collect_fresh_def GetUserSubscriptions_def Let_def
          split: prod.splits)
  qed
qed

text \<open>
  C3. When the call is not forced, the user has a last-delivery timestamp and
  \<^verbatim>\<open>now.Sub(*user.LastNotifiedAt)\<close> is below the interval computed from the user's minutes,
  \<^verbatim>\<open>ProcessUser\<close> returns 0 and the state is the one it was given: no supplier was called,
  no row, cache entry or timestamp was written. The second conjunct says the same with the
  difference and the interval as plain numbers, when neither leaves the range of a
  Duration. A forced call behaves as the call for the same user without a timestamp, and
  always starts by reading the subscriptions, whatever the time elapsed.
\<close>

theorem timing_gate:
  "(LastNotifiedAt user = Some t \<and> time_Sub now t < user_interval user \<longrightarrow>
      ProcessUser e w user False now = (w, 0)) \<and>
   (LastNotifiedAt user = Some t \<and> uint (NotificationIntervalMinutes user) * Minute < 2 ^ 63 \<and>
    minDuration \<le> now - t \<and> now - t < uint (NotificationIntervalMinutes user) * Minute \<longrightarrow>
      ProcessUser e w user False now = (w, 0)) \<and>
   ProcessUser e w user True now = ProcessUser e w (user\<lparr>LastNotifiedAt := None\<rparr>) False now \<and>
   (\<exists>rest. events (fst (ProcessUser e w user True now)) = events w @ SubsRead (ID user) # rest)"
proof -
  have gate: "ProcessUser e w user False now = (w, 0)"
    if "LastNotifiedAt user = Some t" "time_Sub now t < user_interval user"
    using that by (simp add: ProcessUser_def collect_fresh_def Let_def)
  have exact: "time_Sub now t < user_interval user"
    if "uint (NotificationIntervalMinutes user) * Minute < 2 ^ 63"
      "minDuration \<le> now - t" "now - t < uint (NotificationIntervalMinutes user) * Minute"
  proof -
    have "now - t \<le> maxDuration" using that(1,3) by (simp add: maxDuration_def)
    then show ?thesis using that time_Sub_exact [of now t] user_interval_exact [of user] by simp
  qed
  let ?u = "user\<lparr>LastNotifiedAt := None\<rparr>"
  have cf: "collect_fresh e w user True now = collect_fresh e w ?u False now"
    by (simp add: collect_fresh_def Let_def split: prod.splits sum.splits)
  have lim: "articlesToSend ?u fresh = articlesToSend user fresh" for fresh
    by (simp add: articlesToSend_def newsLimit_def)
  have snd: "send_articles e ?u as w' = send_articles e user as w'" for as w'
    by (rule send_articles_user) simp_all
  have same: "ProcessUser e w user True now = ProcessUser e w ?u False now"
    by (simp add: ProcessUser_def cf lim snd Let_def split: prod.splits option.splits)
  obtain rest where r: "events (fst (collect_fresh e w user True now)) =
      events w @ SubsRead (ID user) # rest"
    using collect_fresh_forced by blast
  obtain evs where "events (fst (ProcessUser e w user True now)) =
      events (fst (collect_fresh e w user True now)) @ evs"
    using ProcessUser_extends by blast
  then have "events (fst (ProcessUser e w user True now)) =
      events w @ SubsRead (ID user) # (rest @ evs)" using r by simp
  then have ex: "\<exists>rest. events (fst (ProcessUser e w user True now)) =
      events w @ SubsRead (ID user) # rest" by blast
  show ?thesis using gate exact same ex by blast
qed

theorem timing_gate_witness:
  "LastNotifiedAt user_notified = Some 1000 \<and>
   time_Sub (1000 + 59 * Minute) 1000 < user_interval user_notified \<and>
   ProcessUser env_ok world0 user_notified False (1000 + 59 * Minute) = (world0, 0) \<and>
   snd (ProcessUser env_ok world0 user_notified True (1000 + 59 * Minute)) = 3"
proof -
  have h1: "LastNotifiedAt user_notified = Some 1000" by code_simp
  have h2: "time_Sub (1000 + 59 * Minute) 1000 < user_interval user_notified" by code_simp
  have v: "snd (ProcessUser env_ok world0 user_notified True (1000 + 59 * Minute)) = 3"
    by code_simp
  show ?thesis
    using timing_gate [of user_notified 1000 "1000 + 59 * Minute" env_ok world0] h1 h2 v
    by blast
qed

section \<open>The cap and the returned count\<close>

lemma newsLimit_positive: "0 < newsLimit user"
  by (simp add: newsLimit_def Let_def)

text \<open>
  C4. In a pass that collected the fresh articles \<open>fresh\<close>: when there are more than the
  limit, the articles pushed to the sink are exactly the first \<open>limit\<close> of them, in the
  order in which they were collected; otherwise all are pushed. The limit is 5 when the
  stored value, read as an \<^verbatim>\<open>int\<close>, is not positive.
\<close>

theorem cap_enforcement:
  assumes "snd (collect_fresh e w user force now) = Some fresh"
  shows "(newsLimit user < int (length fresh) \<longrightarrow>
            pass_articles w (fst (ProcessUser e w user force now)) =
              take (nat (newsLimit user)) fresh \<and>
            int (length (pass_articles w (fst (ProcessUser e w user force now)))) =
              newsLimit user) \<and>
         (int (length fresh) \<le> newsLimit user \<longrightarrow>
            pass_articles w (fst (ProcessUser e w user force now)) = fresh) \<and>
         (sint (NewsLimit user) \<le> 0 \<longrightarrow> newsLimit user = 5) \<and>
         (0 < sint (NewsLimit user) \<longrightarrow> newsLimit user = sint (NewsLimit user))"
proof -
  obtain w2 where cf: "collect_fresh e w user force now = (w2, Some fresh)"
    using assms by (cases "collect_fresh e w user force now") simp
  have p: "pass_articles w (fst (ProcessUser e w user force now)) = articlesToSend user fresh"
    using pass_articles_ProcessUser [OF cf] by simp
  have pos: "0 < newsLimit user" by (rule newsLimit_positive)
  show ?thesis using p pos by (auto simp add: articlesToSend_def newsLimit_def Let_def)
qed

theorem cap_enforcement_witness:
  "snd (collect_fresh env8 world0 user_nolimit True 1000) = Some articles8 \<and>
   length articles8 = 8 \<and> sint (NewsLimit user_nolimit) = 0 \<and> newsLimit user_nolimit = 5 \<and>
   pass_articles world0 (fst (ProcessUser env8 world0 user_nolimit True 1000)) = take 5 articles8 \<and>
   int (length (pass_articles world0 (fst (ProcessUser env8 world0 user_nolimit True 1000)))) = 5"
proof -
  have h: "snd (collect_fresh env8 world0 user_nolimit True 1000) = Some articles8" by code_simp
  have l: "length articles8 = 8" by code_simp
  have z: "sint (NewsLimit user_nolimit) = 0" by code_simp
  show ?thesis using cap_enforcement [OF h] h l z by simp
qed

text \<open>
  C5. In a pass that collected at least one fresh article, \<^verbatim>\<open>ProcessUser\<close> returns the
  number of fresh articles collected. The number of pushes is the smaller of that number
  and the limit, and the number of successful pushes is at most the number of pushes; so
  the returned count is above the number of pushes as soon as the cap cuts the list.
\<close>

theorem returned_count:
  assumes "snd (collect_fresh e w user force now) = Some fresh" and "fresh \<noteq> []"
  shows "snd (ProcessUser e w user force now) = int (length fresh) \<and>
         length (pass_articles w (fst (ProcessUser e w user force now))) =
           min (length fresh) (nat (newsLimit user)) \<and>
         length (pass_delivered w (fst (ProcessUser e w user force now))) \<le>
           length (pass_articles w (fst (ProcessUser e w user force now))) \<and>
         (newsLimit user < int (length fresh) \<longrightarrow>
            int (length (pass_articles w (fst (ProcessUser e w user force now)))) <
              snd (ProcessUser e w user force now))"
proof -
  obtain w2 where cf: "collect_fresh e w user force now = (w2, Some fresh)"
    using assms(1) by (cases "collect_fresh e w user force now") simp
  have p: "pass_articles w (fst (ProcessUser e w user force now)) = articlesToSend user fresh"
    using pass_articles_ProcessUser [OF cf] by simp
  have r: "snd (ProcessUser e w user force now) = int (length fresh)"
    using cf assms(2) by (simp add: ProcessUser_def Let_def)
  have pos: "0 < newsLimit user" by (rule newsLimit_positive)
  have l: "length (articlesToSend user fresh) = min (length fresh) (nat (newsLimit user))"
    using pos by (auto simp add: articlesToSend_def)
  have d: "length (pass_delivered w (fst (ProcessUser e w user force now))) \<le>
           length (pass_articles w (fst (ProcessUser e w user force now)))"
    by (simp add: pass_delivered_def pass_articles_def)
  show ?thesis using p r l d pos by auto
qed

theorem returned_count_witness:
  "snd (collect_fresh env8 world0 user1 True 1000) = Some articles8 \<and> articles8 \<noteq> [] \<and>
   snd (ProcessUser env8 world0 user1 True 1000) = 8 \<and>
   length (pass_articles world0 (fst (ProcessUser env8 world0 user1 True 1000))) = 5 \<and>
   length (pass_delivered world0 (fst (ProcessUser env8 world0 user1 True 1000))) = 4"
proof -
  have h: "snd (collect_fresh env8 world0 user1 True 1000) = Some articles8" by code_simp
  have n: "articles8 \<noteq> []" by code_simp
  have l: "length articles8 = 8" by code_simp
  have m: "newsLimit user1 = 5" by code_simp
  have d: "length (pass_delivered world0 (fst (ProcessUser env8 world0 user1 True 1000))) = 4"
    by code_simp
  show ?thesis using returned_count [OF h n] h n l m d by simp
qed

section \<open>The staleness filter\<close>

lemma is_recent_iff:
  "is_recent now a \<longleftrightarrow> now - PublishedAt a < newsFilterThreshold"
  by (auto simp add: is_recent_def time_Sub_def Let_def newsFilterThreshold_def Hour_def
      Minute_def maxDuration_def minDuration_def)

text \<open>
  C9. An article whose publish timestamp lies 183 days or more before \<open>now\<close> is not among
  the articles pushed by the pass, whatever the suppliers answer. An article published 10
  days before \<open>now\<close> passes the staleness test of the loop.
\<close>

theorem staleness_filter:
  "(newsFilterThreshold \<le> now - PublishedAt a \<longrightarrow>
      a \<notin> set (pass_articles w (fst (ProcessUser e w user force now)))) \<and>
   (now - PublishedAt a = 10 * 24 * Hour \<longrightarrow> is_recent now a) \<and>
   is_recent now a = (now - PublishedAt a < newsFilterThreshold) \<and>
   newsFilterThreshold = 183 * 24 * Hour"
proof -
  obtain w2 r where cf: "collect_fresh e w user force now = (w2, r)" by force
  have p: "pass_articles w (fst (ProcessUser e w user force now)) =
      (case r of None \<Rightarrow> [] | Some fresh \<Rightarrow> articlesToSend user fresh)"
    using pass_articles_ProcessUser [OF cf] by simp
  have rec: "list_all (is_recent now) fresh" if some: "r = Some fresh" for fresh
  proof -
    obtain w1 topics where "fetch_topics e now (ID user) topics (w1, []) = (w2, fresh)"
      using cf some
      by (auto simp add: collect_fresh_def Let_def split: if_splits prod.splits sum.splits)
    then show ?thesis
      using fetch_topics_recent [of now "[]" e "ID user" topics w1] by simp
  qed
  have "is_recent now b" if "b \<in> set (pass_articles w (fst (ProcessUser e w user force now)))" for b
  proof (cases r)
    case None
    then show ?thesis using p that by simp
  next
    case (Some fresh)
    then have "b \<in> set fresh" using p that articlesToSend_subset by auto
    then show ?thesis using rec [OF Some] by (simp add: list_all_iff)
  qed
  then have a: "newsFilterThreshold \<le> now - PublishedAt a \<longrightarrow>
      a \<notin> set (pass_articles w (fst (ProcessUser e w user force now)))"
    using is_recent_iff [of now a] by auto
  have b: "now - PublishedAt a = 10 * 24 * Hour \<longrightarrow> is_recent now a"
    by (simp add: is_recent_iff newsFilterThreshold_def Hour_def Minute_def)
  have c: "newsFilterThreshold = 183 * 24 * Hour" by (simp add: newsFilterThreshold_def)
  have d: "is_recent now a = (now - PublishedAt a < newsFilterThreshold)"
    by (rule is_recent_iff)
  show ?thesis using a b c d by - (intro conjI; assumption)
qed

theorem staleness_filter_witness:
  "newsFilterThreshold \<le> 300 * 24 * Hour - PublishedAt old_article \<and>
   300 * 24 * Hour - PublishedAt new_article = 10 * 24 * Hour \<and>
   old_article \<notin> set (pass_articles world0 (fst (ProcessUser env_archive world0 user1 True (300 * 24 * Hour)))) \<and>
   is_recent (300 * 24 * Hour) new_article \<and>
   pass_articles world0 (fst (ProcessUser env_archive world0 user1 True (300 * 24 * Hour))) = [new_article]"
proof -
  have h1: "newsFilterThreshold \<le> 300 * 24 * Hour - PublishedAt old_article" by code_simp
  have h2: "300 * 24 * Hour - PublishedAt new_article = 10 * 24 * Hour" by code_simp
  have v: "pass_articles world0 (fst (ProcessUser env_archive world0 user1 True (300 * 24 * Hour))) = [new_article]"
    by code_simp
  show ?thesis
    using staleness_filter [of "300 * 24 * Hour" old_article world0 env_archive user1 True]
      staleness_filter [of "300 * 24 * Hour" new_article world0 env_archive user1 True] h1 h2 v
    by blast
qed

section \<open>The fallback cache\<close>

lemma topicKey_not_user: "topicKey u a \<noteq> decimal (unat u)"
  by (simp add: topicKey_def)

lemma reset_keeps_segments:
  "map_of (sentArticles (fst (ResetSentArticlesHistory e w u))) (topicKey u a) =
   map_of (sentArticles w) (topicKey u a)"
  using topicKey_not_user [of u a]
  by (simp add: ResetSentArticlesHistory_def repo_ResetSentArticlesHistory_def emit_def Let_def
      update_conv')

text \<open>
  C6. The code at the failing input: user 1, article \<open>''a''\<close>, a ledger that refuses reads and
  writes and accepts the reset. \<^verbatim>\<open>markArticleAsSent\<close> puts the flag under the key \<open>''1:a''\<close>;
  \<^verbatim>\<open>ResetSentArticlesHistory\<close> succeeds and stores an empty map under the key \<open>''1''\<close>; the
  seen-check that follows reads the key \<open>''1:a''\<close> again and answers true.
\<close>

theorem reset_leaves_cache_flag:
  "sentArticles (markArticleAsSent env_ledger_down world0 1 ''a'') = [(''1:a'', [(''a'', True)])] \<and>
   snd (ResetSentArticlesHistory env_ledger_down (markArticleAsSent env_ledger_down world0 1 ''a'') 1)
     = None \<and>
   sentArticles (fst (ResetSentArticlesHistory env_ledger_down
       (markArticleAsSent env_ledger_down world0 1 ''a'') 1))
     = [(''1:a'', [(''a'', True)]), (''1'', [])] \<and>
   fst (snd (IsArticleSent env_ledger_down
       (fst (ResetSentArticlesHistory env_ledger_down
          (markArticleAsSent env_ledger_down world0 1 ''a'') 1)) 1 ''a'')) = True"
  by code_simp

lemma repo_MarkArticleAsSent_fault: "writes_fail e \<Longrightarrow> repo_MarkArticleAsSent e w u a = (emit (LedgerWrite u a) w, Some DBError)"
  by (simp add: repo_MarkArticleAsSent_def writes_fail_def Let_def)

lemma empty_segment_small: "\<not> maxCacheSize \<le> map_len ([] :: (string \<times> bool) list)"
    by (simp add: map_len_def maxCacheSize_def)

lemma update_new_key:
  "k \<notin> fst ` set al \<Longrightarrow> AList.update k v al = al @ [(k, v)]"
  by (induction al) auto

lemma markArticleAsSent_fault:
  assumes "writes_fail e"
  shows "markArticleAsSent e w u a =
     (let w1 = emit (LedgerWrite u a) w;
          key = topicKey u a;
          c0 = sentArticles w;
          c1 = (if map_of c0 key = None then AList.update key [] c0 else c0);
          c2 = (if map_len (segment c1 key) \<ge> maxCacheSize then AList.update key [] c1 else c1);
          c3 = AList.update key (AList.update a True (segment c2 key)) c2
      in w1\<lparr>sentArticles := c3\<rparr>)"
  using assms repo_MarkArticleAsSent_fault [OF assms, of w u a]
  by (simp add: markArticleAsSent_def Let_def emit_def)

lemma markArticleAsSent_cache_new:
  assumes "writes_fail e" and "topicKey u a \<notin> fst ` set (sentArticles w)"
  shows "sentArticles (markArticleAsSent e w u a) = sentArticles w @ [(topicKey u a, [(a, True)])]"
proof -
  let ?k = "topicKey u a"
  let ?c = "sentArticles w"
  have none: "map_of ?c ?k = None" using assms(2) by (simp add: map_of_eq_None_iff)
  have c1: "AList.update ?k [] ?c = ?c @ [(?k, [])]" using assms(2) by (rule update_new_key)
  have seg: "segment (?c @ [(?k, [])]) ?k = []" using none by (simp add: segment_def map_add_def)
  have "AList.update ?k [(a, True)] (AList.update ?k [] ?c) = AList.update ?k [(a, True)] ?c"
    by (rule AList.update_last)
  also have "\<dots> = ?c @ [(?k, [(a, True)])]" using assms(2) by (rule update_new_key)
  finally have c3: "AList.update ?k [(a, True)] (?c @ [(?k, [])]) = ?c @ [(?k, [(a, True)])]"
    by (simp only: c1)
  have small: "\<not> maxCacheSize \<le> map_len ([] :: (string \<times> bool) list)"
    by (simp add: map_len_def maxCacheSize_def)
  have "sentArticles (markArticleAsSent e w u a) =
      AList.update ?k (AList.update a True (segment (?c @ [(?k, [])]) ?k)) (?c @ [(?k, [])])"
    unfolding markArticleAsSent_fault [OF assms(1)] Let_def
    by (simp add: none c1 seg small)
  then show ?thesis by (simp only: seg c3 AList.update.simps)
qed

lemma user_key_topicKey: "user_key u (topicKey u a)"
  by (simp add: user_key_def topicKey_def)

lemma topicKey_inj: "topicKey u a = topicKey u b \<Longrightarrow> a = b"
  by (simp add: topicKey_def)

lemma mark_all_entries:
  assumes "writes_fail e"
  shows "distinct urls \<Longrightarrow> \<forall>a \<in> set urls. topicKey u a \<notin> fst ` set (sentArticles w) \<Longrightarrow>
     user_cache_entries u (sentArticles (mark_all e w u urls)) =
       user_cache_entries u (sentArticles w) + length urls"
proof (induction urls arbitrary: w)
  case Nil
  then show ?case by simp
next
  case (Cons a urls)
  let ?w1 = "markArticleAsSent e w u a"
  have c: "sentArticles ?w1 = sentArticles w @ [(topicKey u a, [(a, True)])]"
    using markArticleAsSent_cache_new [OF assms] Cons.prems(2) by simp
  have fresh: "\<forall>b \<in> set urls. topicKey u b \<notin> fst ` set (sentArticles ?w1)"
  proof
    fix b
    assume b: "b \<in> set urls"
    then have "b \<noteq> a" using Cons.prems(1) by auto
    then have "topicKey u b \<noteq> topicKey u a" using topicKey_inj by blast
    then show "topicKey u b \<notin> fst ` set (sentArticles ?w1)"
      using c b Cons.prems(2) by auto
  qed
  have one: "user_cache_entries u (sentArticles ?w1) = user_cache_entries u (sentArticles w) + 1"
    using c user_key_topicKey [of u a] by (simp add: user_cache_entries_def map_len_def)
  show ?case using Cons.IH [OF _ fresh] Cons.prems(1) one by simp
qed

lemma distinct_urls101: "distinct urls101"
  by code_simp

lemma isArticleSent_down:
  assumes "ledger_down e" and "topicKey u a \<notin> fst ` set (sentArticles w)"
  shows "isArticleSent e w u a = (emit (LedgerRead u a) w, False)"
proof -
  have "map_of (sentArticles w) (topicKey u a) = None"
    using assms(2) by (simp add: map_of_eq_None_iff)
  then show ?thesis using assms(1)
    by (simp add: isArticleSent_def repo_IsArticleSent_def ledger_down_def emit_def Let_def)
qed

lemma filter_articles_down:
  assumes "ledger_down e"
  shows "list_all (is_recent now) arts \<Longrightarrow> distinct (map URL arts) \<Longrightarrow>
     \<forall>a \<in> set arts. topicKey u (URL a) \<notin> fst ` set (sentArticles w) \<Longrightarrow>
     sentArticles (fst (filter_articles e now u arts (w, acc))) =
       sentArticles w @ map (\<lambda>a. (topicKey u (URL a), [(URL a, True)])) arts"
proof (induction arts arbitrary: w acc)
  case Nil
  then show ?case by simp
next
  case (Cons a arts)
  have wf: "writes_fail e" using assms by (simp add: ledger_down_def writes_fail_def)
  let ?w1 = "emit (LedgerRead u (URL a)) w"
  let ?w2 = "markArticleAsSent e ?w1 u (URL a)"
  have c1: "sentArticles ?w1 = sentArticles w" by (simp add: emit_def)
  have k: "topicKey u (URL a) \<notin> fst ` set (sentArticles w)" using Cons.prems(3) by simp
  have chk: "isArticleSent e w u (URL a) = (?w1, False)"
    using isArticleSent_down [OF assms k] .
  have c2: "sentArticles ?w2 = sentArticles w @ [(topicKey u (URL a), [(URL a, True)])]"
    using markArticleAsSent_cache_new [OF wf, of u "URL a" ?w1] k c1 by simp
  have fresh: "\<forall>b \<in> set arts. topicKey u (URL b) \<notin> fst ` set (sentArticles ?w2)"
  proof
    fix b
    assume b: "b \<in> set arts"
    have na: "URL a \<notin> set (map URL arts)" using Cons.prems(2) by simp
    have "URL b \<in> set (map URL arts)" using b by simp
    then have "URL b \<noteq> URL a" using na by (rule_tac notI) simp
    then have "topicKey u (URL b) \<noteq> topicKey u (URL a)" using topicKey_inj by blast
    then show "topicKey u (URL b) \<notin> fst ` set (sentArticles ?w2)"
      using c2 b Cons.prems(3) by auto
  qed
  have rec: "is_recent now a" "list_all (is_recent now) arts" "distinct (map URL arts)"
    using Cons.prems(1,2) by simp_all
  have step: "filter_articles e now u (a # arts) (w, acc) =
      filter_articles e now u arts (?w2, acc @ [a])"
    using rec(1) chk by simp
  show ?case using Cons.IH [OF rec(2) rec(3) fresh, of "acc @ [a]"] step c2 by simp
qed

lemma fetch_topics_Nil: "fetch_topics e now u [] p = p"
  by (cases p) simp

lemma send_articles_cache: "sentArticles (send_articles e user as w) = sentArticles w"
  by (induction as arbitrary: w)
     (simp_all add: sendArticleWithFavoriteButton_def emit_def Let_def)

lemma UpdateUserLastNotifiedAt_cache:
  "sentArticles (fst (UpdateUserLastNotifiedAt e w u t)) = sentArticles w"
  by (simp add: UpdateUserLastNotifiedAt_def emit_def Let_def)

lemma ProcessUser_cache:
  "sentArticles (fst (ProcessUser e w user force now)) =
   sentArticles (fst (collect_fresh e w user force now))"
  by (simp add: ProcessUser_def Let_def send_articles_cache UpdateUserLastNotifiedAt_cache
      split: prod.splits option.splits)

lemma entries_of_marks:
  "user_cache_entries u (c @ map (\<lambda>a. (topicKey u (URL a), [(URL a, True)])) arts) =
   user_cache_entries u c + length arts"
  by (induction arts arbitrary: c)
     (simp_all add: user_cache_entries_def user_key_topicKey map_len_def)

lemma pass_grows_cache:
  "user_cache_entries 1 (sentArticles (fst (ProcessUser env101 world0 user1 True 1000))) = 101"
proof -
  let ?arts = "map (\<lambda>url. article url 0) urls101"
  let ?w1 = "emit (Fetch ''tech'') (emit (SubsRead 1) world0)"
  have ld: "ledger_down env101"
    by (simp add: ledger_down_def env101_def env_ledger_down_def)
  have u: "map URL ?arts = urls101" by (simp add: article_def comp_def)
  have d: "distinct (map URL ?arts)" unfolding u by (rule distinct_urls101)
  have r: "list_all (is_recent 1000) ?arts"
    by (simp add: list_all_iff is_recent_iff article_def newsFilterThreshold_def Hour_def Minute_def)
  have e: "sentArticles ?w1 = []" by (simp add: emit_def world0_def)
  have cf: "fst (collect_fresh env101 world0 user1 True 1000) =
      fst (filter_articles env101 1000 1 ?arts (?w1, []))"
    by (simp add: collect_fresh_def GetUserSubscriptions_def FetchNews_def env101_def
        user1_def emit_def Let_def fetch_topics_Nil split: prod.splits)
  have "sentArticles (fst (filter_articles env101 1000 1 ?arts (?w1, []))) =
      sentArticles ?w1 @ map (\<lambda>a. (topicKey 1 (URL a), [(URL a, True)])) ?arts"
    using filter_articles_down [OF ld r d, of 1 ?w1 "[]"] e by simp
  then have "user_cache_entries 1 (sentArticles (fst (ProcessUser env101 world0 user1 True 1000))) =
      user_cache_entries 1 [] + length ?arts"
    using entries_of_marks [of 1 "[]" ?arts] e by (simp add: ProcessUser_cache cf)
  then show ?thesis by (simp add: user_cache_entries_def urls101_def)
qed

text \<open>
  C7. The code at the failing input: user 1 and 101 different URLs while every read and
  write of the ledger fails, marked one after the other by \<^verbatim>\<open>markArticleAsSent\<close>, or
  returned by the source in one forced pass of \<^verbatim>\<open>ProcessUser\<close>. Each mark opens a segment
  of its own, which never reaches the maximum, so the cache then holds 101 flags for the
  user, above \<open>maxCacheSize\<close>.
\<close>

theorem cache_grows_past_maximum:
  "length urls101 = 101 \<and> maxCacheSize = 100 \<and>
   user_cache_entries 1 (sentArticles (mark_all env_ledger_down world0 1 urls101)) = 101 \<and>
   user_cache_entries 1 (sentArticles (fst (ProcessUser env101 world0 user1 True 1000))) = 101"
proof -
  have wf: "writes_fail env_ledger_down"
    by (simp add: writes_fail_def env_ledger_down_def)
  have l: "length urls101 = 101" by (simp add: urls101_def)
  have e: "sentArticles world0 = []" by (simp add: world0_def)
  have "user_cache_entries 1 (sentArticles (mark_all env_ledger_down world0 1 urls101)) =
      user_cache_entries 1 (sentArticles world0) + length urls101"
    using mark_all_entries [OF wf distinct_urls101, of 1 world0] e by simp
  then have m: "user_cache_entries 1 (sentArticles (mark_all env_ledger_down world0 1 urls101)) = 101"
    using l e by (simp add: user_cache_entries_def)
  have c: "maxCacheSize = 100" by (simp add: maxCacheSize_def)
  show ?thesis using l c m pass_grows_cache by - (intro conjI; assumption)
qed

section \<open>Marking and checking\<close>

lemma MarkArticleAsSent_ledger:
  assumes "MarkArticleAsSent e w u a = (w', None)"
  shows "ledger w' = ledger w @ [(u, a)] \<or> ledger w' = ledger w @ [(u, a), (u, a)]"
proof -
  let ?w1 = "emit (LedgerWrite u a) w"
  let ?w2 = "?w1\<lparr>ledger := ledger ?w1 @ [(u, a)]\<rparr>"
  have nofault: "\<not> ledger_write_fault e (length (events w))"
    using assms by (auto simp add: MarkArticleAsSent_def repo_MarkArticleAsSent_def Let_def)
  then have first: "repo_MarkArticleAsSent e w u a = (?w2, None)"
    by (simp add: repo_MarkArticleAsSent_def Let_def)
  then have w': "w' = markArticleAsSent e ?w2 u a"
    using assms by (simp add: MarkArticleAsSent_def)
  have l2: "ledger ?w2 = ledger w @ [(u, a)]" by (simp add: emit_def)
  have "ledger (markArticleAsSent e ?w2 u a) = ledger ?w2 \<or>
        ledger (markArticleAsSent e ?w2 u a) = ledger ?w2 @ [(u, a)]"
    by (cases "ledger_write_fault e (length (events ?w2))")
       (simp_all add: markArticleAsSent_def repo_MarkArticleAsSent_def emit_def Let_def)
  then show ?thesis using w' l2 by auto
qed

lemma IsArticleSent_read_ok:
  "\<not> ledger_read_fault e (length (events w)) \<Longrightarrow>
   IsArticleSent e w u a = (emit (LedgerRead u a) w, (u, a) \<in> set (ledger w), None)"
  by (auto simp add: IsArticleSent_def isArticleSent_def repo_IsArticleSent_def Let_def
      filter_empty_conv)

lemma ProcessUser_skips_seen:
  assumes "ledger_ok e" and "(ID user, a) \<in> set (ledger w)"
  shows "a \<notin> URL ` set (pass_articles w (fst (ProcessUser e w user force now)))"
proof
  assume "a \<in> URL ` set (pass_articles w (fst (ProcessUser e w user force now)))"
  then obtain b where b: "b \<in> set (pass_articles w (fst (ProcessUser e w user force now)))"
    "URL b = a" by auto
  obtain w2 r where cf: "collect_fresh e w user force now = (w2, r)" by force
  have p: "pass_articles w (fst (ProcessUser e w user force now)) =
      (case r of None \<Rightarrow> [] | Some fresh \<Rightarrow> articlesToSend user fresh)"
    using pass_articles_ProcessUser [OF cf] by simp
  have "b \<in> set (case r of None \<Rightarrow> [] | Some f \<Rightarrow> f)"
    using b(1) p articlesToSend_subset by (cases r) auto
  then have "(ID user, URL b) \<notin> set (ledger w)"
    using collect_fresh_ok [OF assms(1) cf] by blast
  then show False using assms(2) b(2) by simp
qed

text \<open>
  C8. The code at the failing input: user 1, article \<open>''a''\<close>, no rows and an empty cache, a
  database that accepts writes and refuses reads. \<^verbatim>\<open>MarkArticleAsSent\<close> returns nil. Its
  second step, commented as marking in the local cache, calls \<^verbatim>\<open>markArticleAsSent\<close>, which
  writes the row a second time and, as that write succeeds, leaves the cache empty. The
  seen-check that follows, whose query fails, reads the cache and answers false.
\<close>

theorem mark_skips_cache:
  "snd (MarkArticleAsSent env_read_down world0 1 ''a'') = None \<and>
   ledger (fst (MarkArticleAsSent env_read_down world0 1 ''a'')) = [(1, ''a''), (1, ''a'')] \<and>
   sentArticles (fst (MarkArticleAsSent env_read_down world0 1 ''a'')) = [] \<and>
   IsArticleSent env_read_down (fst (MarkArticleAsSent env_read_down world0 1 ''a'')) 1 ''a''
     = (emit (LedgerRead 1 ''a'') (fst (MarkArticleAsSent env_read_down world0 1 ''a'')), False, None)"
  by code_simp

text \<open>
  What holds on the path of the ledger: after \<^verbatim>\<open>MarkArticleAsSent\<close> has returned nil the
  ledger has a row of the pair, and a seen-check whose query succeeds answers true, in the
  repository and in the scheduler. The pairs of the ledger are those of before and the
  marked pair, so marking a pair that is already there leaves the set of pairs as it was;
  and when the ledger works, a pass for that user does not push an article with that URL.
\<close>

lemma mark_then_check:
  assumes "MarkArticleAsSent e w u a = (w', None)"
  shows "(u, a) \<in> set (ledger w') \<and>
     (\<not> ledger_read_fault e (length (events w')) \<longrightarrow>
        snd (repo_IsArticleSent e w' u a) = Inr True \<and>
        IsArticleSent e w' u a = (emit (LedgerRead u a) w', True, None)) \<and>
     set (ledger w') = insert (u, a) (set (ledger w)) \<and>
     ((u, a) \<in> set (ledger w) \<longrightarrow> set (ledger w') = set (ledger w)) \<and>
     (ledger_ok e \<and> ID user = u \<longrightarrow>
        a \<notin> URL ` set (pass_articles w' (fst (ProcessUser e w' user force now))))"
proof -
  have l: "ledger w' = ledger w @ [(u, a)] \<or> ledger w' = ledger w @ [(u, a), (u, a)]"
    using assms by (rule MarkArticleAsSent_ledger)
  then have m: "(u, a) \<in> set (ledger w')" by auto
  have s: "set (ledger w') = insert (u, a) (set (ledger w))" using l by auto
  have c: "\<not> ledger_read_fault e (length (events w')) \<longrightarrow>
        snd (repo_IsArticleSent e w' u a) = Inr True \<and>
        IsArticleSent e w' u a = (emit (LedgerRead u a) w', True, None)"
    using m IsArticleSent_read_ok [of e w' u a]
    by (simp add: repo_IsArticleSent_def Let_def filter_empty_conv)
  have p: "ledger_ok e \<and> ID user = u \<longrightarrow>
        a \<notin> URL ` set (pass_articles w' (fst (ProcessUser e w' user force now)))"
    using m ProcessUser_skips_seen [of e user a w' force now] by blast
  have d: "(u, a) \<in> set (ledger w) \<longrightarrow> set (ledger w') = set (ledger w)"
    using s by (simp add: insert_absorb)
  show ?thesis using m c s d p by - (intro conjI; assumption)
qed

lemma mark_then_check_example:
  "MarkArticleAsSent env_ok world_marked 1 ''a'' =
     (fst (MarkArticleAsSent env_ok world_marked 1 ''a''), None) \<and>
   (1, ''a'') \<in> set (ledger world_marked) \<and>
   \<not> ledger_read_fault env_ok
       (length (events (fst (MarkArticleAsSent env_ok world_marked 1 ''a'')))) \<and>
   ledger_ok env_ok \<and> ID user1 = 1 \<and>
   set (ledger (fst (MarkArticleAsSent env_ok world_marked 1 ''a''))) = set (ledger world_marked) \<and>
   IsArticleSent env_ok (fst (MarkArticleAsSent env_ok world_marked 1 ''a'')) 1 ''a'' =
     (emit (LedgerRead 1 ''a'') (fst (MarkArticleAsSent env_ok world_marked 1 ''a'')), True, None) \<and>
   ''a'' \<notin> URL ` set (pass_articles (fst (MarkArticleAsSent env_ok world_marked 1 ''a''))
      (fst (ProcessUser env_ok (fst (MarkArticleAsSent env_ok world_marked 1 ''a'')) user1 True 1000))) \<and>
   map URL (pass_articles (fst (MarkArticleAsSent env_ok world_marked 1 ''a''))
      (fst (ProcessUser env_ok (fst (MarkArticleAsSent env_ok world_marked 1 ''a'')) user1 True 1000)))
     = [''b'', ''c'']"
proof -
  let ?w' = "fst (MarkArticleAsSent env_ok world_marked 1 ''a'')"
  have h: "MarkArticleAsSent env_ok world_marked 1 ''a'' = (?w', None)" by code_simp
  have old: "(1, ''a'') \<in> set (ledger world_marked)" by code_simp
  have nf: "\<not> ledger_read_fault env_ok (length (events ?w'))" by (simp add: env_ok_def)
  have i: "ID user1 = 1" by (simp add: user1_def)
  have v: "map URL (pass_articles ?w' (fst (ProcessUser env_ok ?w' user1 True 1000))) = [''b'', ''c'']"
    by code_simp
  note t = mark_then_check [OF h, of user1 True 1000]
  have c: "IsArticleSent env_ok ?w' 1 ''a'' = (emit (LedgerRead 1 ''a'') ?w', True, None)"
    using t [THEN conjunct2, THEN conjunct1] nf by (rule mp [THEN conjunct2])
  have d: "set (ledger ?w') = set (ledger world_marked)"
    using t [THEN conjunct2, THEN conjunct2, THEN conjunct2, THEN conjunct1] old by (rule mp)
  have p: "''a'' \<notin> URL ` set (pass_articles ?w' (fst (ProcessUser env_ok ?w' user1 True 1000)))"
    using t [THEN conjunct2, THEN conjunct2, THEN conjunct2, THEN conjunct2]
      conjI [OF ledger_ok_env_ok i] by (rule mp)
  show ?thesis using h old nf ledger_ok_env_ok i d c p v by - (intro conjI; assumption)
qed

section \<open>Stopping the scheduler\<close>

text \<open>
  C2 as stated fails: after \<^verbatim>\<open>Start\<close>, the first \<^verbatim>\<open>Stop\<close> closes the channel and the second
  closes the closed channel, which panics.
\<close>

theorem second_stop_panics:
  "Stop (Start NewScheduler) = Inr \<lparr>stop = Closed, loops = 1\<rparr> \<and>
   Stop \<lparr>stop = Closed, loops = 1\<rparr> = Inl CloseOfClosedChannel"
  by code_simp

text \<open>
  C2 amended. \<^verbatim>\<open>Stop\<close> is to be called once: after \<^verbatim>\<open>Start\<close> on an open channel the first
  \<^verbatim>\<open>Stop\<close> returns without panic and closes the channel; the loop, which could not take the
  stop case before, can take it now and returns; a further \<^verbatim>\<open>Stop\<close> panics (it does not
  block).
\<close>

theorem stop_once:
  assumes "stop s = Open"
  shows "Stop (Start s) = Inr ((Start s)\<lparr>stop := Closed\<rparr>) \<and>
         loop_round StopC (Start s) = Blocked \<and>
         loop_round StopC ((Start s)\<lparr>stop := Closed\<rparr>) = Return (s\<lparr>stop := Closed\<rparr>) \<and>
         Stop ((Start s)\<lparr>stop := Closed\<rparr>) = Inl CloseOfClosedChannel"
  using assms by (simp add: Stop_def Start_def loop_round_def)

theorem stop_once_witness:
  "stop NewScheduler = Open \<and>
   Stop (Start NewScheduler) = Inr \<lparr>stop = Closed, loops = 1\<rparr> \<and>
   loop_round StopC \<lparr>stop = Closed, loops = 1\<rparr> = Return \<lparr>stop = Closed, loops = 0\<rparr> \<and>
   Stop \<lparr>stop = Closed, loops = 1\<rparr> = Inl CloseOfClosedChannel"
proof -
  have h: "stop NewScheduler = Open" by (simp add: NewScheduler_def)
  show ?thesis using stop_once [OF h] h by (simp add: NewScheduler_def Start_def)
qed

section \<open>The public seen-check never fails\<close>

text \<open>
  C10. \<^verbatim>\<open>IsArticleSent\<close> returns a nil error in every state and environment. When the query
  of the ledger fails, its answer is the flag of \<^verbatim>\<open>s.sentArticles\<close> under the key of user and
  article, which is false when the cache has no entry for the pair.
\<close>

theorem IsArticleSent_nil_error:
  "snd (snd (IsArticleSent e w u a)) = None \<and>
   (ledger_read_fault e (length (events w)) \<longrightarrow>
      fst (snd (IsArticleSent e w u a)) = flag (segment (sentArticles w) (topicKey u a)) a \<and>
      (map_of (segment (sentArticles w) (topicKey u a)) a = None \<longrightarrow>
         fst (snd (IsArticleSent e w u a)) = False))"
  by (auto simp add: IsArticleSent_def isArticleSent_def repo_IsArticleSent_def emit_def
      segment_def flag_def Let_def split: option.splits)

theorem IsArticleSent_nil_error_witness:
  "ledger_read_fault env_ledger_down (length (events world0)) \<and>
   map_of (segment (sentArticles world0) (topicKey 1 ''a'')) ''a'' = None \<and>
   IsArticleSent env_ledger_down world0 1 ''a'' =
     (emit (LedgerRead 1 ''a'') world0, False, None)"
  using IsArticleSent_nil_error [of env_ledger_down world0 1 "''a''"]
  by (simp add: env_ledger_down_def env_ok_def world0_def segment_def IsArticleSent_def
      isArticleSent_def repo_IsArticleSent_def emit_def Let_def)

end
